theory Spec2Isabelle
  imports Main
begin

section \<open>Strings, characters and errors\<close>

text \<open>
  A Python \<open>str\<close> is a sequence of code points. It is modelled as a \<open>string\<close> whose
  characters are the code points below 256 (Latin-1), so that one list element is one
  Python character. The negation marker of \<open>fol.py\<close>, U+00AC, is the character 0xAC.
\<close>

definition neg_sign :: char where
  "neg_sign = CHR 0xAC"

text \<open>The character classes of \<open>str.isalpha\<close>, \<open>str.islower\<close>, and of the regex
  classes \<open>\w\<close>, \<open>\s\<close> and \<open>.\<close>, on code points below 256.\<close>

definition code_point :: "char \<Rightarrow> nat" where
  "code_point c = of_char c"

definition between :: "nat \<Rightarrow> nat \<Rightarrow> nat \<Rightarrow> bool" where
  "between lo hi n = (lo \<le> n \<and> n \<le> hi)"

definition isalpha_char :: "char \<Rightarrow> bool" where
  "isalpha_char c = (let n = code_point c in
     between 65 90 n \<or> between 97 122 n \<or> n = 170 \<or> n = 181 \<or> n = 186 \<or>
     between 192 214 n \<or> between 216 246 n \<or> between 248 255 n)"

definition islower_char :: "char \<Rightarrow> bool" where
  "islower_char c = (let n = code_point c in
     between 97 122 n \<or> n = 170 \<or> n = 181 \<or> n = 186 \<or>
     between 223 246 n \<or> between 248 255 n)"

definition word_char :: "char \<Rightarrow> bool" where
  "word_char c = (let n = code_point c in
     isalpha_char c \<or> between 48 57 n \<or> n = 95 \<or> between 178 179 n \<or> n = 185 \<or>
     between 188 190 n)"

definition space_char :: "char \<Rightarrow> bool" where
  "space_char c = (let n = code_point c in
     between 9 13 n \<or> between 28 32 n \<or> n = 133 \<or> n = 160)"

definition dot_char :: "char \<Rightarrow> bool" where
  "dot_char c = (c \<noteq> CHR 0x0A)"

definition digit_char :: "char \<Rightarrow> bool" where
  "digit_char c = between 48 57 (code_point c)"

text \<open>The exceptions the modelled functions can raise.\<close>

datatype error = RecursionError | TypeError | IndexError | ValueError

section \<open>First-order literals (fol.py)\<close>

subsection \<open>Negating the query\<close>

definition startswith_neg :: "string \<Rightarrow> bool" where
  "startswith_neg s = (case s of [] \<Rightarrow> False | c # _ \<Rightarrow> c = neg_sign)"

definition negate_query :: "string \<Rightarrow> string" where
  "negate_query query = (if startswith_neg query then drop 1 query else neg_sign # query)"

definition prepare_kb_with_negated_query :: "string list list \<Rightarrow> string \<Rightarrow> string list list" where
  "prepare_kb_with_negated_query kb query = kb @ [[negate_query query]]"

subsection \<open>The parser\<close>

text \<open>
  \<open>re.split(r",\s*", s)\<close>: the string is cut at every comma, and the white space that
  follows a comma is dropped with it. The result always has at least one piece.
\<close>

function split_commas :: "string \<Rightarrow> string \<Rightarrow> string list" where
  "split_commas cur [] = [rev cur]"
| "split_commas cur (c # cs) =
     (if c = CHR '','' then rev cur # split_commas [] (dropWhile space_char cs)
      else split_commas (c # cur) cs)"
  by pat_completeness auto
termination
  by (relation "measure (\<lambda>(cur, s). length s)") (auto simp: length_dropWhile_le less_Suc_eq_le)

definition re_split_commas :: "string \<Rightarrow> string list" where
  "re_split_commas s = split_commas [] s"

text \<open>
  The prefix of \<open>s\<close> before its last closing parenthesis, if it has one: what the
  greedy \<open>(.*)\)\<close> captures on a string without line breaks.
\<close>

fun before_last_paren :: "string \<Rightarrow> string option" where
  "before_last_paren [] = None"
| "before_last_paren (c # cs) =
     (case before_last_paren cs of
        Some r \<Rightarrow> Some (c # r)
      | None \<Rightarrow> if c = CHR '')'' then Some [] else None)"

text \<open>
  \<open>re.match(r"(\<not>?\w+)\((.*)\)", sentence)\<close>: an optional negation marker, the longest
  run of word characters (it must not be empty), an opening parenthesis, and then the
  characters of the same line up to the last closing parenthesis of that line.
  The match is anchored at the start only. Without a match the source returns
  \<open>(None, [])\<close>.
\<close>

definition parse_sentence :: "string \<Rightarrow> string option \<times> string list" where
  "parse_sentence sentence =
     (let neg = (if startswith_neg sentence then [neg_sign] else []);
          rest = drop (length neg) sentence;
          name = takeWhile word_char rest;
          after = dropWhile word_char rest
      in if name = [] then (None, [])
         else (case after of
                 [] \<Rightarrow> (None, [])
               | c # body \<Rightarrow>
                   if c \<noteq> CHR ''('' then (None, [])
                   else (case before_last_paren (takeWhile dot_char body) of
                           None \<Rightarrow> (None, [])
                         | Some inner \<Rightarrow> (Some (neg @ name), re_split_commas inner))))"

subsection \<open>Substitutions\<close>

text \<open>A \<open>dict\<close> from variable names to terms, kept in insertion order.\<close>

type_synonym substitution = "(string \<times> string) list"

fun dict_set :: "substitution \<Rightarrow> string \<Rightarrow> string \<Rightarrow> substitution" where
  "dict_set [] k v = [(k, v)]"
| "dict_set ((k', v') # rest) k v =
     (if k' = k then (k, v) # rest else (k', v') # dict_set rest k v)"

definition dict_get :: "substitution \<Rightarrow> string \<Rightarrow> string \<Rightarrow> string" where
  "dict_get d k dflt = (case map_of d k of Some v \<Rightarrow> v | None \<Rightarrow> dflt)"

definition dict_keys :: "substitution \<Rightarrow> string set" where
  "dict_keys d = fst ` set d"

definition isalpha_str :: "string \<Rightarrow> bool" where
  "isalpha_str s = (s \<noteq> [] \<and> list_all isalpha_char s)"

definition is_variable :: "string \<Rightarrow> bool" where
  "is_variable term = (length term > 0 \<and> islower_char (hd term) \<and> isalpha_str term)"

definition apply_substitution_to_term :: "string \<Rightarrow> substitution \<Rightarrow> string" where
  "apply_substitution_to_term term substitution =
     (if is_variable term then dict_get substitution term term else term)"

fun join :: "string \<Rightarrow> string list \<Rightarrow> string" where
  "join sep [] = []"
| "join sep [x] = x"
| "join sep (x # y # ys) = x @ sep @ join sep (y # ys)"

text \<open>When the literal does not parse, the predicate is \<open>None\<close> and the
  concatenation raises \<open>TypeError\<close>.\<close>

definition apply_substitution_to_literal :: "string \<Rightarrow> substitution \<Rightarrow> error + string" where
  "apply_substitution_to_literal literal substitution =
     (case parse_sentence literal of
        (None, _) \<Rightarrow> Inl TypeError
      | (Some predicate, args) \<Rightarrow>
          Inr (predicate @ ''('' @
               join '', '' (map (\<lambda>arg. apply_substitution_to_term arg substitution) args) @
               '')''))"

subsection \<open>Unification\<close>

text \<open>
  \<open>unify_terms\<close> recurses into the arguments of compound terms and nothing bounds that
  recursion but the interpreter: the first argument is the number of nested calls still
  available, and a call at depth 0 raises \<open>RecursionError\<close>. The dictionary is updated
  in place, so the function returns it next to its boolean result. \<open>unify_args\<close> is the
  loop over the zipped argument lists, which stops at the first pair that fails.
\<close>

fun unify_terms :: "nat \<Rightarrow> string \<Rightarrow> string \<Rightarrow> substitution \<Rightarrow> error + (bool \<times> substitution)"
  and unify_args :: "nat \<Rightarrow> (string \<times> string) list \<Rightarrow> substitution \<Rightarrow> error + (bool \<times> substitution)"
where
  "unify_terms 0 term1 term2 substitutions = Inl RecursionError"
| "unify_terms (Suc depth) term1 term2 substitutions =
     (let t1 = apply_substitution_to_term term1 substitutions;
          t2 = apply_substitution_to_term term2 substitutions
      in if t1 = t2 then Inr (True, substitutions)
         else if is_variable t1 then Inr (True, dict_set substitutions t1 t2)
         else if is_variable t2 then Inr (True, dict_set substitutions t2 t1)
         else (case (parse_sentence t1, parse_sentence t2) of
                 ((Some predicate1, args1), (Some predicate2, args2)) \<Rightarrow>
                   if predicate1 \<noteq> [] \<and> predicate2 \<noteq> [] \<and> predicate1 = predicate2
                      \<and> length args1 = length args2
                   then unify_args depth (zip args1 args2) substitutions
                   else Inr (False, substitutions)
               | _ \<Rightarrow> Inr (False, substitutions)))"
| "unify_args depth [] substitutions = Inr (True, substitutions)"
| "unify_args depth ((subterm1, subterm2) # rest) substitutions =
     (case unify_terms depth subterm1 subterm2 substitutions of
        Inl e \<Rightarrow> Inl e
      | Inr (ok, substitutions') \<Rightarrow>
          if ok then unify_args depth rest substitutions' else Inr (False, substitutions'))"

text \<open>
  \<open>unify\<close> returns a dictionary on every path: the bindings when all argument pairs
  unify, and a fresh empty dictionary on each of the three paths the source marks
  "Unification fails".
\<close>

definition unify :: "nat \<Rightarrow> string \<Rightarrow> string \<Rightarrow> error + substitution" where
  "unify limit sentence1 sentence2 =
     (case (parse_sentence sentence1, parse_sentence sentence2) of
        ((predicate1, args1), (predicate2, args2)) \<Rightarrow>
          if predicate1 \<noteq> predicate2 then Inr []
          else if length args1 \<noteq> length args2 then Inr []
          else (case unify_args limit (zip args1 args2) [] of
                  Inl e \<Rightarrow> Inl e
                | Inr (ok, substitutions) \<Rightarrow> if ok then Inr substitutions else Inr []))"

subsection \<open>Clauses and resolution\<close>

text \<open>
  A clause is a \<open>frozenset\<close> of literal strings and the working sets are sets of
  clauses. Both are modelled as lists without repetition, in insertion order; the
  order in which Python walks a set is not fixed, and nothing below depends on it
  except which of two exceptions, or an exception and a \<open>return True\<close>, comes first.
  Two clauses are the same \<open>frozenset\<close> when they have the same elements.
\<close>

type_synonym clause = "string list"

definition frozenset_eq :: "clause \<Rightarrow> clause \<Rightarrow> bool" where
  "frozenset_eq a b = (set a \<subseteq> set b \<and> set b \<subseteq> set a)"

fun clause_in :: "clause \<Rightarrow> clause list \<Rightarrow> bool" where
  "clause_in c [] = False"
| "clause_in c (x # xs) = (frozenset_eq c x \<or> clause_in c xs)"

definition clause_add :: "clause list \<Rightarrow> clause \<Rightarrow> clause list" where
  "clause_add cs c = (if clause_in c cs then cs else cs @ [c])"

definition clauses_update :: "clause list \<Rightarrow> clause list \<Rightarrow> clause list" where
  "clauses_update cs new = foldl clause_add cs new"

definition clauses_minus :: "clause list \<Rightarrow> clause list \<Rightarrow> clause list" where
  "clauses_minus cs ds = filter (\<lambda>c. \<not> clause_in c ds) cs"

definition set_add :: "clause \<Rightarrow> string \<Rightarrow> clause" where
  "set_add c l = (if l \<in> set c then c else c @ [l])"

definition set_union :: "clause \<Rightarrow> clause \<Rightarrow> clause" where
  "set_union a b = foldl set_add a b"

definition set_minus :: "clause \<Rightarrow> clause \<Rightarrow> clause" where
  "set_minus a b = filter (\<lambda>l. l \<notin> set b) a"

definition frozenset :: "string list \<Rightarrow> clause" where
  "frozenset ls = foldl set_add [] ls"

text \<open>\<open>s.split('(')[0]\<close>: the part of \<open>s\<close> before its first opening parenthesis.\<close>

definition literal_name :: "string \<Rightarrow> string" where
  "literal_name s = takeWhile (\<lambda>c. c \<noteq> CHR ''('') s"

text \<open>
  The test on a pair of literals: \<open>None\<close> is the \<open>continue\<close> branch, otherwise the
  result of the call of \<open>unify\<close> on the pair with the negation marker removed.
\<close>

definition unify_complementary :: "nat \<Rightarrow> string \<Rightarrow> string \<Rightarrow> (error + substitution) option" where
  "unify_complementary limit literal1 literal2 =
     (if startswith_neg literal1 \<and> \<not> startswith_neg literal2 \<and>
         literal_name (drop 1 literal1) = literal_name literal2
      then Some (unify limit (drop 1 literal1) literal2)
      else if \<not> startswith_neg literal1 \<and> startswith_neg literal2 \<and>
         literal_name literal1 = literal_name (drop 1 literal2)
      then Some (unify limit literal1 (drop 1 literal2))
      else None)"

text \<open>The set comprehension \<open>{apply_substitution_to_literal(lit, s) for lit in new_clause}\<close>.\<close>

fun substitute_clause :: "clause \<Rightarrow> clause \<Rightarrow> substitution \<Rightarrow> error + clause" where
  "substitute_clause acc [] substitution = Inr acc"
| "substitute_clause acc (lit # rest) substitution =
     (case apply_substitution_to_literal lit substitution of
        Inl e \<Rightarrow> Inl e
      | Inr lit' \<Rightarrow> substitute_clause (set_add acc lit') rest substitution)"

text \<open>
  The two nested loops of \<open>resolve\<close>, over the pairs of a literal of the first clause
  and a literal of the second. The source guards the resolvent by
  \<open>if substitution is not None\<close>; \<open>unify\<close> returns a dictionary on every path, so the
  guard holds whenever it is reached.
\<close>

fun resolve_pairs ::
  "nat \<Rightarrow> clause \<Rightarrow> clause \<Rightarrow> (string \<times> string) list \<Rightarrow> clause list \<Rightarrow> error + clause list"
where
  "resolve_pairs limit clause1 clause2 [] resolved_clauses = Inr resolved_clauses"
| "resolve_pairs limit clause1 clause2 ((literal1, literal2) # rest) resolved_clauses =
     (case unify_complementary limit literal1 literal2 of
        None \<Rightarrow> resolve_pairs limit clause1 clause2 rest resolved_clauses
      | Some (Inl e) \<Rightarrow> Inl e
      | Some (Inr substitution) \<Rightarrow>
          (case substitute_clause []
                  (set_minus (set_union clause1 clause2) [literal1, literal2]) substitution of
             Inl e \<Rightarrow> Inl e
           | Inr substituted_clause \<Rightarrow>
               resolve_pairs limit clause1 clause2 rest
                 (clause_add resolved_clauses substituted_clause)))"

definition resolve :: "nat \<Rightarrow> clause \<Rightarrow> clause \<Rightarrow> error + clause list" where
  "resolve limit clause1 clause2 =
     resolve_pairs limit clause1 clause2 (List.product clause1 clause2) []"

subsection \<open>The refutation loop\<close>

text \<open>\<open>pair in processed_pairs\<close>, where a pair is the \<open>frozenset\<close> of two clauses.\<close>

fun pair_in :: "clause \<times> clause \<Rightarrow> (clause \<times> clause) list \<Rightarrow> bool" where
  "pair_in (ci, cj) [] = False"
| "pair_in (ci, cj) ((a, b) # rest) =
     ((frozenset_eq ci a \<and> frozenset_eq cj b) \<or> (frozenset_eq ci b \<and> frozenset_eq cj a)
      \<or> pair_in (ci, cj) rest)"

text \<open>
  One round: the two nested loops over \<open>new_clauses\<close> and \<open>clauses\<close>, threading
  \<open>next_new_clauses\<close> and \<open>processed_pairs\<close>. The result \<open>None\<close> is the
  \<open>return True\<close> taken when a pair has the empty clause among its resolvents.
\<close>

fun resolve_round ::
  "nat \<Rightarrow> clause list \<Rightarrow> (clause \<times> clause) list \<Rightarrow> clause list \<Rightarrow> (clause \<times> clause) list
   \<Rightarrow> error + clause list option"
where
  "resolve_round limit clauses [] next_new_clauses processed_pairs = Inr (Some next_new_clauses)"
| "resolve_round limit clauses ((ci, cj) # rest) next_new_clauses processed_pairs =
     (if frozenset_eq ci cj then resolve_round limit clauses rest next_new_clauses processed_pairs
      else if pair_in (ci, cj) processed_pairs
      then resolve_round limit clauses rest next_new_clauses processed_pairs
      else (case resolve limit ci cj of
              Inl e \<Rightarrow> Inl e
            | Inr resolvents \<Rightarrow>
                if clause_in [] resolvents then Inr None
                else resolve_round limit clauses rest
                       (clauses_update next_new_clauses (clauses_minus resolvents clauses))
                       (processed_pairs @ [(ci, cj)])))"

text \<open>
  The \<open>while True\<close> loop. It has no bound: the counter \<open>iteration\<close> is incremented at
  the start of every round and never read. The loop is a partial function, \<open>None\<close>
  standing for a run that does not return; a run that returns gives the boolean and,
  for reference, the value the counter has at that moment.
\<close>

partial_function (option) refutation_loop ::
  "nat \<Rightarrow> nat \<Rightarrow> clause list \<Rightarrow> clause list \<Rightarrow> (error + bool \<times> nat) option"
where
  "refutation_loop limit iteration clauses new_clauses =
     (case resolve_round limit clauses (List.product new_clauses clauses) [] [] of
        Inl e \<Rightarrow> Some (Inl e)
      | Inr None \<Rightarrow> Some (Inr (True, Suc iteration))
      | Inr (Some next_new_clauses) \<Rightarrow>
          if next_new_clauses = [] then Some (Inr (False, Suc iteration))
          else refutation_loop limit (Suc iteration)
                 (clauses_update clauses next_new_clauses) next_new_clauses)"

definition inference_rounds ::
  "nat \<Rightarrow> string list list \<Rightarrow> string \<Rightarrow> (error + bool \<times> nat) option" where
  "inference_rounds limit kb query =
     (let kb' = prepare_kb_with_negated_query kb query;
          clauses = clauses_update [] (map frozenset kb');
          new_clauses = clauses_update [] (map frozenset [last kb'])
      in refutation_loop limit 0 clauses new_clauses)"

definition inference_by_resolution ::
  "nat \<Rightarrow> string list list \<Rightarrow> string \<Rightarrow> (error + bool) option" where
  "inference_by_resolution limit kb query =
     map_option (map_sum id fst) (inference_rounds limit kb query)"

section \<open>Propositional formulas (wumpus_world.py)\<close>

text \<open>
  A sentence is a string (an atom) or a tuple whose first component is one of the five
  operator names and whose other components are the operands. The tuple keeps all its
  operands: the source reads them by position and some of its branches accept any
  number of them.
\<close>

datatype operator = NOT | AND | OR | IMPLIES | IFF

datatype formula = Atom string | Node operator "formula list"

subsection \<open>World.ask\<close>

text \<open>
  \<open>facts\<close> is the set of atoms told to the world. \<open>all\<close> and \<open>any\<close> stop at the first
  operand that decides them, and \<open>or\<close> does not evaluate its right operand when the
  left one is true.
\<close>

fun ask :: "string set \<Rightarrow> formula \<Rightarrow> error + bool"
  and ask_all :: "string set \<Rightarrow> formula list \<Rightarrow> error + bool"
  and ask_any :: "string set \<Rightarrow> formula list \<Rightarrow> error + bool"
where
  "ask facts (Atom sentence) = Inr (sentence \<in> facts)"
| "ask facts (Node NOT []) = Inl IndexError"
| "ask facts (Node NOT (x # rest)) =
     (case ask facts x of Inl e \<Rightarrow> Inl e | Inr b \<Rightarrow> Inr (\<not> b))"
| "ask facts (Node AND operands) = ask_all facts operands"
| "ask facts (Node OR operands) = ask_any facts operands"
| "ask facts (Node IMPLIES []) = Inl IndexError"
| "ask facts (Node IMPLIES [x]) =
     (case ask facts x of Inl e \<Rightarrow> Inl e | Inr a \<Rightarrow> if \<not> a then Inr True else Inl IndexError)"
| "ask facts (Node IMPLIES (x # y # rest)) =
     (case ask facts x of Inl e \<Rightarrow> Inl e | Inr a \<Rightarrow> if \<not> a then Inr True else ask facts y)"
| "ask facts (Node IFF []) = Inl IndexError"
| "ask facts (Node IFF [x]) =
     (case ask facts x of Inl e \<Rightarrow> Inl e | Inr a \<Rightarrow> Inl IndexError)"
| "ask facts (Node IFF (x # y # rest)) =
     (case ask facts x of
        Inl e \<Rightarrow> Inl e
      | Inr a \<Rightarrow> (case ask facts y of Inl e \<Rightarrow> Inl e | Inr b \<Rightarrow> Inr (a = b)))"
| "ask_all facts [] = Inr True"
| "ask_all facts (x # rest) =
     (case ask facts x of Inl e \<Rightarrow> Inl e | Inr b \<Rightarrow> if b then ask_all facts rest else Inr False)"
| "ask_any facts [] = Inr False"
| "ask_any facts (x # rest) =
     (case ask facts x of Inl e \<Rightarrow> Inl e | Inr b \<Rightarrow> if b then Inr True else ask_any facts rest)"

subsection \<open>Player.convert_to_cnf\<close>

definition and_then :: "error + 'a \<Rightarrow> ('a \<Rightarrow> error + 'b) \<Rightarrow> error + 'b" where
  "and_then r f = (case r of Inl e \<Rightarrow> Inl e | Inr x \<Rightarrow> f x)"

text \<open>
  The converter calls itself on formulas it has just built, so its recursion is not
  structural. As for \<open>unify_terms\<close>, the first argument is the number of nested calls
  still available and a call at depth 0 raises \<open>RecursionError\<close>. An operand read by
  position and absent raises \<open>IndexError\<close>; operands beyond those a branch reads are
  dropped by that branch. \<open>convert_operands\<close> is the list comprehension of the
  \<open>AND\<close> branch.
\<close>

fun convert_to_cnf :: "nat \<Rightarrow> formula \<Rightarrow> error + formula"
  and convert_operands :: "nat \<Rightarrow> formula list \<Rightarrow> error + formula list"
where
  "convert_to_cnf 0 statement = Inl RecursionError"
| "convert_to_cnf (Suc depth) (Atom s) = Inr (Atom s)"
| "convert_to_cnf (Suc depth) (Node IFF []) = Inl IndexError"
| "convert_to_cnf (Suc depth) (Node IFF (x # rest)) =
     and_then (convert_to_cnf depth x) (\<lambda>a.
       case rest of
         [] \<Rightarrow> Inl IndexError
       | y # _ \<Rightarrow>
           and_then (convert_to_cnf depth y) (\<lambda>b.
             convert_to_cnf depth (Node AND [Node IMPLIES [a, b], Node IMPLIES [b, a]])))"
| "convert_to_cnf (Suc depth) (Node IMPLIES []) = Inl IndexError"
| "convert_to_cnf (Suc depth) (Node IMPLIES (x # rest)) =
     and_then (convert_to_cnf depth x) (\<lambda>a.
       case rest of
         [] \<Rightarrow> Inl IndexError
       | y # _ \<Rightarrow>
           and_then (convert_to_cnf depth y) (\<lambda>b.
             convert_to_cnf depth (Node OR [Node NOT [a], b])))"
| "convert_to_cnf (Suc depth) (Node NOT []) = Inl IndexError"
| "convert_to_cnf (Suc depth) (Node NOT (operand # rest)) =
     (case operand of
        Atom s \<Rightarrow> Inr (Node NOT [operand])
      | Node NOT xs \<Rightarrow>
          (case xs of [] \<Rightarrow> Inl IndexError | x # _ \<Rightarrow> convert_to_cnf depth x)
      | Node AND xs \<Rightarrow>
          (case xs of
             x # y # _ \<Rightarrow> convert_to_cnf depth (Node OR [Node NOT [x], Node NOT [y]])
           | _ \<Rightarrow> Inl IndexError)
      | Node OR xs \<Rightarrow>
          (case xs of
             x # y # _ \<Rightarrow> convert_to_cnf depth (Node AND [Node NOT [x], Node NOT [y]])
           | _ \<Rightarrow> Inl IndexError)
      | Node _ _ \<Rightarrow>
          and_then (convert_to_cnf depth operand) (\<lambda>c. Inr (Node NOT [c])))"
| "convert_to_cnf (Suc depth) (Node OR []) = Inl IndexError"
| "convert_to_cnf (Suc depth) (Node OR (x # rest)) =
     and_then (convert_to_cnf depth x) (\<lambda>left.
       case rest of
         [] \<Rightarrow> Inl IndexError
       | y # _ \<Rightarrow>
           and_then (convert_to_cnf depth y) (\<lambda>right.
             case left of
               Node AND ls \<Rightarrow>
                 (case ls of
                    p # q # _ \<Rightarrow>
                      convert_to_cnf depth (Node AND [Node OR [p, right], Node OR [q, right]])
                  | _ \<Rightarrow> Inl IndexError)
             | _ \<Rightarrow>
                 (case right of
                    Node AND rs \<Rightarrow>
                      (case rs of
                         p # q # _ \<Rightarrow>
                           convert_to_cnf depth (Node AND [Node OR [left, p], Node OR [left, q]])
                       | _ \<Rightarrow> Inl IndexError)
                  | _ \<Rightarrow> Inr (Node OR [left, right]))))"
| "convert_to_cnf (Suc depth) (Node AND operands) =
     and_then (convert_operands depth operands) (\<lambda>cs. Inr (Node AND cs))"
| "convert_operands depth [] = Inr []"
| "convert_operands depth (x # rest) =
     and_then (convert_to_cnf depth x) (\<lambda>c.
       and_then (convert_operands depth rest) (\<lambda>cs. Inr (c # cs)))"

subsection \<open>Clause extraction\<close>

text \<open>
  The \<open>while operands\<close> loop of the \<open>OR\<close> branch: the first operand is popped; the
  operands of a nested \<open>OR\<close> go to the end of the work list, anything else is appended
  to the clause.
\<close>

function flatten_or :: "formula list \<Rightarrow> formula list \<Rightarrow> formula list" where
  "flatten_or [] clause = clause"
| "flatten_or (operand # operands) clause =
     (case operand of
        Node OR xs \<Rightarrow> flatten_or (operands @ xs) clause
      | _ \<Rightarrow> flatten_or operands (clause @ [operand]))"
  by pat_completeness auto
termination
  by (relation "measure (\<lambda>(operands, clause). size_list size operands)") auto

fun extract_clauses :: "formula \<Rightarrow> formula list list" where
  "extract_clauses (Atom s) = [[Atom s]]"
| "extract_clauses (Node NOT xs) = [[Node NOT xs]]"
| "extract_clauses (Node AND xs) = concat (map extract_clauses xs)"
| "extract_clauses (Node OR xs) = [flatten_or xs []]"
| "extract_clauses (Node operator xs) = [[Node operator xs]]"

fun literal_to_string :: "formula \<Rightarrow> error + string" where
  "literal_to_string (Atom s) = Inr s"
| "literal_to_string (Node NOT []) = Inl IndexError"
| "literal_to_string (Node NOT (x # rest)) =
     and_then (literal_to_string x) (\<lambda>s. Inr (CHR ''~'' # s))"
| "literal_to_string (Node operator xs) = Inl ValueError"

fun map_err :: "('a \<Rightarrow> error + 'b) \<Rightarrow> 'a list \<Rightarrow> error + 'b list" where
  "map_err f [] = Inr []"
| "map_err f (x # xs) = and_then (f x) (\<lambda>y. and_then (map_err f xs) (\<lambda>ys. Inr (y # ys)))"

subsection \<open>Propositional resolution\<close>

definition resolve_clauses :: "clause \<Rightarrow> clause \<Rightarrow> clause list" where
  "resolve_clauses ci cj =
     foldl (\<lambda>resolvents (di, dj).
              if di = CHR ''~'' # dj \<or> dj = CHR ''~'' # di
              then clause_add resolvents (set_union (set_minus ci [di]) (set_minus cj [dj]))
              else resolvents)
       [] (List.product ci cj)"

text \<open>\<open>[(clauses[i], clauses[j]) for i in range(n) for j in range(i+1, n)]\<close>\<close>

fun pairs :: "'a list \<Rightarrow> ('a \<times> 'a) list" where
  "pairs [] = []"
| "pairs (x # xs) = map (Pair x) xs @ pairs xs"

text \<open>The loop over the pairs; \<open>None\<close> is the \<open>return True\<close> on the empty clause.\<close>

fun resolve_all :: "(clause \<times> clause) list \<Rightarrow> clause list \<Rightarrow> clause list option" where
  "resolve_all [] new = Some new"
| "resolve_all ((ci, cj) # rest) new =
     (let resolvents = resolve_clauses ci cj
      in if clause_in [] resolvents then None
         else resolve_all rest (clauses_update new resolvents))"

text \<open>
  The \<open>while True\<close> loop of \<open>Player.inference_by_resolution\<close>. \<open>clauses\<close> is a Python
  list of sets, which may hold the same set twice; \<open>new\<close> is empty when a round starts.
  The loop has no bound and no counter.
\<close>

partial_function (option) saturate :: "clause list \<Rightarrow> bool option" where
  "saturate clauses =
     (case resolve_all (pairs clauses) [] of
        None \<Rightarrow> Some True
      | Some new \<Rightarrow>
          if list_all (\<lambda>c. clause_in c clauses) new then Some False
          else saturate (clauses_update clauses new))"

definition player_inference_by_resolution ::
  "nat \<Rightarrow> formula list \<Rightarrow> formula \<Rightarrow> error + bool option" where
  "player_inference_by_resolution limit kb query =
     and_then (map_err (\<lambda>sentence. and_then (convert_to_cnf limit sentence)
                                      (\<lambda>cnf. Inr (extract_clauses cnf))) kb) (\<lambda>kb_clauses.
     and_then (convert_to_cnf limit (Node NOT [query])) (\<lambda>negated_query.
     and_then (map_err (\<lambda>clause. and_then (map_err literal_to_string clause)
                                    (\<lambda>ls. Inr (frozenset ls)))
                 (concat kb_clauses @ extract_clauses negated_query)) (\<lambda>clauses.
     Inr (saturate clauses))))"

section \<open>The bounded engine of the specification\<close>

text \<open>
  The specification describes an entry point with three results and a maximum number
  of rounds. For comparison with the loops above, these are the same rounds run under
  a bound: \<open>UNKNOWN\<close> is the result when the bound is reached.
\<close>

datatype EntailmentResult = TRUE | FALSE | UNKNOWN

fun spec_bounded_refutation ::
  "nat \<Rightarrow> nat \<Rightarrow> clause list \<Rightarrow> clause list \<Rightarrow> error + EntailmentResult" where
  "spec_bounded_refutation 0 limit clauses new_clauses = Inr UNKNOWN"
| "spec_bounded_refutation (Suc max_iterations) limit clauses new_clauses =
     (case resolve_round limit clauses (List.product new_clauses clauses) [] [] of
        Inl e \<Rightarrow> Inl e
      | Inr None \<Rightarrow> Inr TRUE
      | Inr (Some next_new_clauses) \<Rightarrow>
          if next_new_clauses = [] then Inr FALSE
          else spec_bounded_refutation max_iterations limit
                 (clauses_update clauses next_new_clauses) next_new_clauses)"

fun spec_bounded_saturate :: "nat \<Rightarrow> clause list \<Rightarrow> EntailmentResult" where
  "spec_bounded_saturate 0 clauses = UNKNOWN"
| "spec_bounded_saturate (Suc max_iterations) clauses =
     (case resolve_all (pairs clauses) [] of
        None \<Rightarrow> TRUE
      | Some new \<Rightarrow>
          if list_all (\<lambda>c. clause_in c clauses) new then FALSE
          else spec_bounded_saturate max_iterations (clauses_update clauses new))"

definition spec_infer ::
  "nat \<Rightarrow> nat \<Rightarrow> string list list \<Rightarrow> string \<Rightarrow> error + EntailmentResult" where
  "spec_infer max_iterations limit kb query =
     (let kb' = prepare_kb_with_negated_query kb query;
          clauses = clauses_update [] (map frozenset kb');
          new_clauses = clauses_update [] (map frozenset [last kb'])
      in spec_bounded_refutation max_iterations limit clauses new_clauses)"

text \<open>The two results of the source, in the vocabulary of the specification.\<close>

definition entailment :: "bool \<Rightarrow> EntailmentResult" where
  "entailment b = (if b then TRUE else FALSE)"

section \<open>Notions used in the statements and proofs\<close>

text \<open>
  The text of an argument list: a first argument, and then for each further argument
  a comma, the characters written after that comma, and the argument.
\<close>

fun write_arguments :: "string \<Rightarrow> (string \<times> string) list \<Rightarrow> string" where
  "write_arguments arg [] = arg"
| "write_arguments arg ((gap, next) # rest) = arg @ CHR '','' # gap @ write_arguments next rest"

text \<open>
  The formulas of the binary grammar: \<open>NOT\<close> with one operand, the other connectives
  with two. On these formulas \<open>truth_value\<close> is the value that \<open>ask\<close> computes, and
  \<open>cnf_measure\<close> is a size that every recursive call of the converter decreases.
\<close>

fun binary :: "formula \<Rightarrow> bool" where
  "binary (Atom s) = True"
| "binary (Node NOT [x]) = binary x"
| "binary (Node NOT xs) = False"
| "binary (Node operator [x, y]) = (binary x \<and> binary y)"
| "binary (Node operator xs) = False"

fun truth_value :: "string set \<Rightarrow> formula \<Rightarrow> bool" where
  "truth_value facts (Atom s) = (s \<in> facts)"
| "truth_value facts (Node NOT [x]) = (\<not> truth_value facts x)"
| "truth_value facts (Node AND [x, y]) = (truth_value facts x \<and> truth_value facts y)"
| "truth_value facts (Node OR [x, y]) = (truth_value facts x \<or> truth_value facts y)"
| "truth_value facts (Node IMPLIES [x, y]) = (\<not> truth_value facts x \<or> truth_value facts y)"
| "truth_value facts (Node IFF [x, y]) = (truth_value facts x = truth_value facts y)"
| "truth_value facts (Node operator xs) = False"

fun cnf_measure :: "formula \<Rightarrow> nat" where
  "cnf_measure (Atom s) = 2"
| "cnf_measure (Node NOT [x]) = 2 ^ cnf_measure x"
| "cnf_measure (Node AND [x, y]) = cnf_measure x + cnf_measure y + 1"
| "cnf_measure (Node OR [x, y]) = cnf_measure x * cnf_measure y"
| "cnf_measure (Node IMPLIES [x, y]) = 2 ^ cnf_measure x * cnf_measure y + 1"
| "cnf_measure (Node IFF [x, y]) =
     2 ^ cnf_measure x * cnf_measure y + 2 ^ cnf_measure y * cnf_measure x + 4"
| "cnf_measure (Node operator xs) = 0"

text \<open>The part of the \<open>OR\<close> branch of the converter that follows the conversion of
  the two operands.\<close>

definition or_branch :: "nat \<Rightarrow> formula \<Rightarrow> formula \<Rightarrow> error + formula" where
  "or_branch d l r =
     (case l of
         Node AND ls \<Rightarrow>
           (case ls of
              p # q # _ \<Rightarrow> convert_to_cnf d (Node AND [Node OR [p, r], Node OR [q, r]])
            | _ \<Rightarrow> Inl IndexError)
       | _ \<Rightarrow>
           (case r of
              Node AND rs \<Rightarrow>
                (case rs of
                   p # q # _ \<Rightarrow> convert_to_cnf d (Node AND [Node OR [l, p], Node OR [l, q]])
                 | _ \<Rightarrow> Inl IndexError)
            | _ \<Rightarrow> Inr (Node OR [l, r])))"

definition is_and :: "formula \<Rightarrow> bool" where
  "is_and f = (\<exists>xs. f = Node AND xs)"

section \<open>Properties of the first-order engine\<close>

lemmas char_class_defs = neg_sign_def word_char_def isalpha_char_def islower_char_def
  space_char_def dot_char_def code_point_def between_def digit_char_def

lemmas parse_defs = parse_sentence_def startswith_neg_def re_split_commas_def

lemmas unify_defs = unify_def apply_substitution_to_term_def is_variable_def isalpha_str_def
  dict_get_def Let_def

lemmas resolve_defs = resolve_def unify_complementary_def literal_name_def set_minus_def
  set_union_def set_add_def clause_add_def apply_substitution_to_literal_def frozenset_eq_def

subsection \<open>The failure value of unify\<close>

text \<open>
  Claim C1. The claim asks for a failure outcome of \<open>unify\<close> that differs from a
  successful unification binding nothing. On the code both are the empty dictionary:
  \<open>Parent(x,x)\<close> against \<open>Parent(John, Mary)\<close> fails at the second argument pair
  (\<open>x\<close> is already bound to \<open>John\<close>) and returns \<open>{}\<close>, the value that the
  successful unification of \<open>P(A)\<close> with itself returns. The recursion limit is any
  positive number.
\<close>

theorem unify_failure_returns_empty_dict:
  "unify_args (Suc n) (zip [''x'', ''x''] [''John'', ''Mary'']) [] = Inr (False, [(''x'', ''John'')])
   \<and> unify (Suc n) ''Parent(x,x)'' ''Parent(John, Mary)'' = Inr []
   \<and> unify_args (Suc n) (zip [''A''] [''A'']) [] = Inr (True, [])
   \<and> unify (Suc n) ''P(A)'' ''P(A)'' = Inr []"
  by (simp add: char_class_defs parse_defs unify_defs)

subsection \<open>Resolution after a failed unification\<close>

text \<open>
  Claim C2. The claim says that a complementary pair whose unification fails contributes
  no resolvent. On the code the pair \<open>\<not>P(A)\<close>, \<open>P(B)\<close> does not unify (\<open>A\<close> and \<open>B\<close>
  are distinct constants), \<open>unify\<close> returns the empty dictionary, the guard
  \<open>substitution is not None\<close> lets it through, and \<open>resolve\<close> returns the empty clause
  as a resolvent.
\<close>

theorem resolve_keeps_pair_after_failed_unification:
  "unify_args (Suc n) (zip [''A''] [''B'']) [] = Inr (False, [])
   \<and> unify (Suc n) ''P(A)'' ''P(B)'' = Inr []
   \<and> resolve (Suc n) [neg_sign # ''P(A)''] [''P(B)''] = Inr [[]]"
  by (simp add: char_class_defs parse_defs unify_defs resolve_defs)

subsection \<open>The examples of unification\<close>

text \<open>
  Claim C6. \<open>unify(Parent(x, y), Parent(John, Mary))\<close> is the dictionary
  \<open>{x: John, y: Mary}\<close>, and \<open>unify(Loves(father(x), x), Loves(father(John), John))\<close>
  is \<open>{x: John}\<close>: the compound terms \<open>father(x)\<close> and \<open>father(John)\<close> are parsed and
  unified argument by argument, which takes one nested call more.
\<close>

theorem unify_spec_examples:
  "unify (Suc n) ''Parent(x, y)'' ''Parent(John, Mary)'' = Inr [(''x'', ''John''), (''y'', ''Mary'')]
   \<and> unify (Suc (Suc n)) ''Loves(father(x), x)'' ''Loves(father(John), John)''
       = Inr [(''x'', ''John'')]"
  by (simp add: char_class_defs parse_defs unify_defs)

subsection \<open>The example of resolution\<close>

text \<open>
  Claim C7. Resolving \<open>{\<not>King(x), \<not>Greedy(x), Evil(x)}\<close> with \<open>{King(John)}\<close> yields
  one resolvent, the clause \<open>{\<not>Greedy(John), Evil(John)}\<close>.
\<close>

theorem resolve_king_john:
  "resolve (Suc n) [neg_sign # ''King(x)'', neg_sign # ''Greedy(x)'', ''Evil(x)''] [''King(John)'']
     = Inr [[neg_sign # ''Greedy(John)'', ''Evil(John)'']]"
  by (simp add: char_class_defs parse_defs unify_defs resolve_defs)

subsection \<open>Variables\<close>

lemma dict_set_keys: "dict_keys (dict_set s k v) = insert k (dict_keys s)"
  unfolding dict_keys_def by (induction s k v rule: dict_set.induct) auto

lemma unify_binds_variables:
  "unify_terms d t1 t2 s = Inr (b, s') \<Longrightarrow> dict_keys s' \<subseteq> dict_keys s \<union> Collect is_variable"
  "unify_args d ps s = Inr (b, s') \<Longrightarrow> dict_keys s' \<subseteq> dict_keys s \<union> Collect is_variable"
proof (induction d t1 t2 s and d ps s arbitrary: b s' and b s' rule: unify_terms_unify_args.induct)
  case (1 term1 term2 substitutions)
  then show ?case by simp
next
  case (2 depth term1 term2 substitutions)
  then show ?case
    by (auto simp: Let_def dict_set_keys split: if_splits option.splits prod.splits)
next
  case (3 depth substitutions)
  then show ?case by simp
next
  case (4 depth subterm1 subterm2 rest substitutions)
  then show ?case
    by (fastforce split: sum.splits prod.splits if_splits)
qed

text \<open>
  Claim C10. A term is a variable exactly when it is not empty, all its characters are
  alphabetic and its first character is lower case. A term with a digit or a
  parenthesis is therefore not a variable, substitution leaves every term that is not a
  variable as it is, and every key that \<open>unify_terms\<close> adds to the dictionary is a
  variable.
\<close>

theorem variable_classification:
  "(is_variable t \<longleftrightarrow> t \<noteq> [] \<and> list_all isalpha_char t \<and> islower_char (hd t))
   \<and> ((\<exists>c \<in> set t. digit_char c \<or> c = CHR ''('' \<or> c = CHR '')'') \<longrightarrow> \<not> is_variable t)
   \<and> (\<not> is_variable t \<longrightarrow> apply_substitution_to_term t s = t)
   \<and> (unify_terms d t1 t2 s = Inr (b, s') \<longrightarrow>
        (\<forall>k \<in> dict_keys s'. k \<in> dict_keys s \<or> is_variable k))"
proof -
  have a: "is_variable t \<longleftrightarrow> t \<noteq> [] \<and> list_all isalpha_char t \<and> islower_char (hd t)"
    by (auto simp: is_variable_def isalpha_str_def)
  have "\<not> isalpha_char c" if "digit_char c \<or> c = CHR ''('' \<or> c = CHR '')''" for c
    using that by (auto simp: digit_char_def isalpha_char_def between_def code_point_def Let_def)
  then have b: "(\<exists>c \<in> set t. digit_char c \<or> c = CHR ''('' \<or> c = CHR '')'') \<longrightarrow> \<not> is_variable t"
    unfolding a by (auto simp: list_all_iff)
  have c: "\<not> is_variable t \<longrightarrow> apply_substitution_to_term t s = t"
    by (simp add: apply_substitution_to_term_def)
  have d: "unify_terms d t1 t2 s = Inr (b, s') \<longrightarrow>
        (\<forall>k \<in> dict_keys s'. k \<in> dict_keys s \<or> is_variable k)"
    using unify_binds_variables(1) [of d t1 t2 s b s'] by blast
  from a b c d show ?thesis by blast
qed

text \<open>Witness for C10: \<open>x1\<close> and \<open>father(x)\<close> are not variables, and unification
  binds \<open>y\<close> but not \<open>x1\<close>.\<close>

theorem variable_classification_witness:
  "is_variable ''x'' \<and> \<not> is_variable ''x1'' \<and> \<not> is_variable ''father(x)'' \<and> \<not> is_variable ''John''
   \<and> apply_substitution_to_term ''x1'' [(''x1'', ''A'')] = ''x1''
   \<and> unify_terms 2 ''f(x1, y)'' ''f(A, B)'' [] = Inr (False, [])
   \<and> unify_terms 2 ''f(y, x1)'' ''f(B, A)'' [] = Inr (False, [(''y'', ''B'')])"
  using variable_classification [where t = "''x1''" and s = "[(''x1'', ''A'')]"]
    variable_classification [where t = "''father(x)''"]
    variable_classification [where t = "''x''"]
    variable_classification [where t = "''John''"]
    variable_classification [where d = 2 and ?t1.0 = "''f(y, x1)''" and ?t2.0 = "''f(B, A)''"
      and s = "[]" and b = False and s' = "[(''y'', ''B'')]"]
  by (simp add: char_class_defs parse_defs unify_defs numeral_2_eq_2 dict_keys_def)

subsection \<open>Splitting the argument list\<close>

lemma split_commas_append:
  "CHR '','' \<notin> set a \<Longrightarrow> split_commas cur (a @ rest) = split_commas (rev a @ cur) rest"
  by (induction a arbitrary: cur) auto

lemma dropWhile_space_prefix:
  "list_all space_char ws \<Longrightarrow> J = [] \<or> \<not> space_char (hd J) \<Longrightarrow> dropWhile space_char (ws @ J) = J"
proof (induction ws)
  case Nil
  then show ?case by (cases J) auto
next
  case (Cons w ws)
  then show ?case by simp
qed

lemma comma_not_space: "\<not> space_char CHR '',''"
  by (simp add: char_class_defs)

lemma write_arguments_starts_unspaced:
  assumes "arg \<noteq> [] \<longrightarrow> \<not> space_char (hd arg)"
  shows "write_arguments arg rest = [] \<or> \<not> space_char (hd (write_arguments arg rest))"
proof (cases rest)
  case Nil
  with assms show ?thesis by auto
next
  case (Cons p ps)
  with assms show ?thesis
    by (cases p; cases arg) (auto simp: comma_not_space)
qed

lemma split_commas_write_arguments:
  assumes "\<forall>a \<in> set (arg # map snd rest). CHR '','' \<notin> set a \<and> (a \<noteq> [] \<longrightarrow> \<not> space_char (hd a))"
    and "\<forall>gap \<in> set (map fst rest). list_all space_char gap"
  shows "split_commas [] (write_arguments arg rest) = arg # map snd rest"
  using assms
proof (induction arg rest rule: write_arguments.induct)
  case (1 arg)
  then show ?case using split_commas_append [of arg "[]" "[]"] by simp
next
  case (2 arg gap "next" rest)
  let ?W = "write_arguments next rest"
  have W: "?W = [] \<or> \<not> space_char (hd ?W)"
    using 2(2) by (intro write_arguments_starts_unspaced) auto
  have gap: "list_all space_char gap" using 2(3) by simp
  have "split_commas [] (arg @ CHR '','' # gap @ ?W) = split_commas (rev arg) (CHR '','' # gap @ ?W)"
    using split_commas_append [of arg "[]"] 2(2) by simp
  also have "\<dots> = arg # split_commas [] ?W"
    using dropWhile_space_prefix [OF gap W] by simp
  also have "split_commas [] ?W = next # map snd rest"
    using 2 by simp
  finally show ?case by simp
qed

lemma write_arguments_one_line:
  assumes "\<forall>a \<in> set (arg # map snd rest). CHR 0x0A \<notin> set a"
    and "\<forall>gap \<in> set (map fst rest). CHR 0x0A \<notin> set gap"
  shows "CHR 0x0A \<notin> set (write_arguments arg rest)"
  using assms by (induction arg rest rule: write_arguments.induct) auto

lemma before_last_paren_snoc: "before_last_paren (xs @ '')'') = Some xs"
  by (induction xs) auto

lemma takeWhile_all: "\<forall>x \<in> set xs. P x \<Longrightarrow> takeWhile P xs = xs"
  by (induction xs) auto

lemma paren_not_word: "\<not> word_char CHR ''(''"
  by (simp add: char_class_defs)

lemma neg_not_word: "\<not> word_char neg_sign"
  by (simp add: char_class_defs)

text \<open>
  Claim C5, as amended. Take a literal written as an optional negation marker, a
  predicate name (a non-empty run of word characters), an opening parenthesis, one or
  more arguments, and a closing parenthesis, where each argument after the first is
  preceded by a comma and by white space (possibly none, and possibly different at each
  comma). If no argument contains a comma or a line feed or starts with white space,
  and the white space after the commas contains no line feed, the parser returns the
  predicate with its marker and exactly these arguments, in order. The arguments may
  contain parentheses, as \<open>father(x)\<close> does.
\<close>

theorem parse_sentence_flat_arguments:
  assumes "neg = [] \<or> neg = [neg_sign]"
    and "name \<noteq> []" and "list_all word_char name"
    and "\<forall>a \<in> set (arg # map snd rest).
           CHR '','' \<notin> set a \<and> CHR 0x0A \<notin> set a \<and> (a \<noteq> [] \<longrightarrow> \<not> space_char (hd a))"
    and "\<forall>gap \<in> set (map fst rest). list_all space_char gap \<and> CHR 0x0A \<notin> set gap"
  shows "parse_sentence (neg @ name @ ''('' @ write_arguments arg rest @ '')'')
         = (Some (neg @ name), arg # map snd rest)"
proof -
  let ?J = "write_arguments arg rest"
  let ?s = "neg @ name @ ''('' @ ?J @ '')''"
  have hd_name: "hd name \<noteq> neg_sign"
    using assms(2,3) neg_not_word by (cases name) auto
  have neg: "(if startswith_neg ?s then [neg_sign] else []) = neg"
    using assms(1,2) hd_name by (cases name) (auto simp: startswith_neg_def)
  have rest: "drop (length neg) ?s = name @ CHR ''('' # ?J @ '')''"
    by simp
  have tw: "takeWhile word_char (name @ CHR ''('' # ?J @ '')'') = name"
    using assms(3) paren_not_word by (simp add: list_all_iff)
  have dw: "dropWhile word_char (name @ CHR ''('' # ?J @ '')'') = CHR ''('' # ?J @ '')''"
    using assms(3) paren_not_word by (simp add: list_all_iff)
  have "CHR 0x0A \<notin> set ?J"
    using assms(4,5) by (intro write_arguments_one_line) auto
  then have "\<forall>c \<in> set (?J @ '')''). dot_char c"
    by (auto simp: dot_char_def)
  then have line: "takeWhile dot_char (?J @ '')'') = ?J @ '')''"
    by (rule takeWhile_all)
  have split: "re_split_commas ?J = arg # map snd rest"
    unfolding re_split_commas_def using assms(4,5) by (intro split_commas_write_arguments) auto
  show ?thesis
    unfolding parse_sentence_def neg Let_def rest tw dw
    using assms(2) split by (simp add: line before_last_paren_snoc)
qed

text \<open>Witness for C5: a literal with a nested one-argument term, a negated literal, and
  a literal whose commas are followed by different white space.\<close>

theorem parse_sentence_flat_arguments_witness:
  "parse_sentence ''Loves(father(x), x)'' = (Some ''Loves'', [''father(x)'', ''x''])
   \<and> parse_sentence (neg_sign # ''King(x)'') = (Some (neg_sign # ''King''), [''x''])
   \<and> parse_sentence ''P(a, b,c)'' = (Some ''P'', [''a'', ''b'', ''c''])"
  using parse_sentence_flat_arguments [of "[]" "''Loves''" "''father(x)''" "[('' '', ''x'')]"]
    parse_sentence_flat_arguments [of "[neg_sign]" "''King''" "''x''" "[]"]
    parse_sentence_flat_arguments [of "[]" "''P''" "''a''" "[('' '', ''b''), ([], ''c'')]"]
  by (simp add: char_class_defs)

text \<open>
  Counterexample for C5 as stated: the comma inside the nested term \<open>f(A, B)\<close> splits
  the argument list, so that \<open>P(f(A, B), C)\<close> has three arguments instead of two.
\<close>

theorem parse_sentence_nested_comma:
  "parse_sentence ''P(f(A, B), C)'' = (Some ''P'', [''f(A'', ''B)'', ''C''])
   \<and> snd (parse_sentence ''P(f(A, B), C)'') \<noteq> [''f(A, B)'', ''C'']"
  by (simp add: char_class_defs parse_defs)

section \<open>Properties of the refutation loops\<close>

lemmas loop_defs = inference_rounds_def inference_by_resolution_def spec_infer_def
  prepare_kb_with_negated_query_def negate_query_def clauses_update_def clauses_minus_def
  frozenset_def

lemmas player_defs = player_inference_by_resolution_def and_then_def resolve_clauses_def
  clauses_update_def frozenset_def set_add_def set_union_def set_minus_def clause_add_def
  frozenset_eq_def Let_def

subsection \<open>The first-order example\<close>

text \<open>
  Claim C8. For the knowledge base \<open>\<not>King(x) \<or> \<not>Greedy(x) \<or> Evil(x)\<close>, \<open>King(John)\<close>,
  \<open>Greedy(John)\<close> and the query \<open>Evil(John)\<close>, \<open>inference_by_resolution\<close> returns, and
  it returns \<open>True\<close>. The terms are not nested, so any positive recursion limit is enough.
\<close>

theorem fol_refutation_king_john:
  "inference_by_resolution (Suc n)
     [[neg_sign # ''King(x)'', neg_sign # ''Greedy(x)'', ''Evil(x)''], [''King(John)''],
      [''Greedy(John)'']] ''Evil(John)'' = Some (Inr True)"
  by (simp add: loop_defs refutation_loop.simps char_class_defs parse_defs unify_defs resolve_defs)

subsection \<open>The propositional examples\<close>

text \<open>
  Claim C9. With the knowledge base \<open>A\<close>, \<open>IMPLIES(A, B)\<close>, the propositional engine
  returns \<open>True\<close> for the query \<open>B\<close>, and it returns \<open>False\<close> for the query \<open>P21\<close>:
  the second round adds no clause. Converting \<open>IMPLIES(A, B)\<close> takes three nested calls.
\<close>

theorem propositional_refutation_examples:
  "player_inference_by_resolution (Suc (Suc (Suc n)))
     [Atom ''A'', Node IMPLIES [Atom ''A'', Atom ''B'']] (Atom ''B'') = Inr (Some True)
   \<and> player_inference_by_resolution (Suc (Suc (Suc n)))
     [Atom ''A'', Node IMPLIES [Atom ''A'', Atom ''B'']] (Atom ''P21'') = Inr (Some False)"
  by (simp add: player_defs saturate.simps)

subsection \<open>The loops have no bound\<close>

lemma refutation_loop_follows_bounded:
  "spec_bounded_refutation m limit cs new = Inr v \<Longrightarrow> v \<noteq> UNKNOWN \<Longrightarrow>
   \<exists>k. refutation_loop limit it cs new = Some (Inr (v = TRUE, it + k))"
proof (induction m limit cs new arbitrary: it rule: spec_bounded_refutation.induct)
  case (1 limit clauses new_clauses)
  then show ?case by simp
next
  case (2 m limit clauses new_clauses)
  show ?case
  proof (cases "resolve_round limit clauses (List.product new_clauses clauses) [] []")
    case (Inl e)
    with 2(2) show ?thesis by simp
  next
    case (Inr r)
    show ?thesis
    proof (cases r)
      case None
      with Inr 2(2) have "v = TRUE" by simp
      with Inr None show ?thesis
        by (subst refutation_loop.simps) (auto intro: exI [of _ 1])
    next
      case (Some next_new)
      show ?thesis
      proof (cases "next_new = []")
        case True
        with Inr Some 2(2) have "v = FALSE" by simp
        with Inr Some True show ?thesis
          by (subst refutation_loop.simps) (auto intro: exI [of _ 1])
      next
        case False
        with Inr Some 2(2)
        have "spec_bounded_refutation m limit (clauses_update clauses next_new) next_new = Inr v"
          by simp
        from 2(1) [OF Inr Some False this 2(3), of "Suc it"]
        obtain k where "refutation_loop limit (Suc it) (clauses_update clauses next_new) next_new
          = Some (Inr (v = TRUE, Suc it + k))" by blast
        with Inr Some False show ?thesis
          by (subst refutation_loop.simps) (auto intro: exI [of _ "Suc k"])
      qed
    qed
  qed
qed

lemma refutation_loop_error:
  "spec_bounded_refutation m limit cs new = Inl e \<Longrightarrow> refutation_loop limit it cs new = Some (Inl e)"
proof (induction m limit cs new arbitrary: it rule: spec_bounded_refutation.induct)
  case (1 limit clauses new_clauses)
  then show ?case by simp
next
  case (2 m limit clauses new_clauses)
  from 2(2) show ?case
    by (subst refutation_loop.simps)
       (auto split: sum.splits option.splits if_splits intro: 2(1))
qed

lemma saturate_follows_bounded:
  "spec_bounded_saturate m cs = v \<Longrightarrow> v \<noteq> UNKNOWN \<Longrightarrow> saturate cs = Some (v = TRUE)"
proof (induction m cs arbitrary: v rule: spec_bounded_saturate.induct)
  case (1 clauses)
  then show ?case by simp
next
  case (2 m clauses)
  show ?case
  proof (cases "resolve_all (pairs clauses) []")
    case None
    with 2(2) show ?thesis by (subst saturate.simps) auto
  next
    case (Some new)
    show ?thesis
    proof (cases "list_all (\<lambda>c. clause_in c clauses) new")
      case True
      with Some 2(2) show ?thesis by (subst saturate.simps) auto
    next
      case False
      with Some 2(2) have "spec_bounded_saturate m (clauses_update clauses new) = v"
        by simp
      from 2(1) [OF Some False this 2(3)] Some False show ?thesis
        by (subst saturate.simps) simp
    qed
  qed
qed

lemma entailment_eq: "v \<noteq> UNKNOWN \<Longrightarrow> entailment (v = TRUE) = v"
  by (cases v) (auto simp: entailment_def)

text \<open>
  Claim C3, as amended. Neither refutation loop takes a maximum number of rounds, and
  both have two results. Whenever the bounded engine of the specification reaches
  \<open>TRUE\<close> or \<open>FALSE\<close> (or an exception) within its bound, the source returns the same;
  where the bound would give \<open>UNKNOWN\<close> the source goes on to the next round, and
  \<open>UNKNOWN\<close> is not among its results.
\<close>

theorem refutation_loops_unbounded:
  "(spec_infer m limit kb query = Inr v \<and> v \<noteq> UNKNOWN \<longrightarrow>
      map_option (map_sum id entailment) (inference_by_resolution limit kb query) = Some (Inr v))
   \<and> (spec_infer m limit kb query = Inl e \<longrightarrow> inference_by_resolution limit kb query = Some (Inl e))
   \<and> (spec_bounded_saturate m cs = v' \<and> v' \<noteq> UNKNOWN \<longrightarrow>
      map_option entailment (saturate cs) = Some v')
   \<and> map_option (map_sum id entailment) (inference_by_resolution limit kb query) \<noteq> Some (Inr UNKNOWN)
   \<and> map_option entailment (saturate cs) \<noteq> Some UNKNOWN"
proof -
  have a: "map_option (map_sum id entailment) (inference_by_resolution limit kb query) = Some (Inr v)"
    if "spec_infer m limit kb query = Inr v" "v \<noteq> UNKNOWN"
  proof -
    from that obtain k where "inference_rounds limit kb query = Some (Inr (v = TRUE, 0 + k))"
      unfolding spec_infer_def inference_rounds_def Let_def
      using refutation_loop_follows_bounded by blast
    with that(2) show ?thesis
      by (simp add: inference_by_resolution_def entailment_eq)
  qed
  have b: "inference_by_resolution limit kb query = Some (Inl e)"
    if "spec_infer m limit kb query = Inl e"
    using that refutation_loop_error [of m limit _ _ e 0]
    unfolding spec_infer_def inference_rounds_def inference_by_resolution_def Let_def
    by simp
  have c: "map_option entailment (saturate cs) = Some v'"
    if "spec_bounded_saturate m cs = v'" "v' \<noteq> UNKNOWN"
    using saturate_follows_bounded [OF that] that(2) by (simp add: entailment_eq)
  have d: "map_option (map_sum id entailment) (inference_by_resolution limit kb query) \<noteq> Some (Inr UNKNOWN)"
    by (cases "inference_by_resolution limit kb query")
       (auto simp: entailment_def map_sum_def split: sum.splits)
  have e: "map_option entailment (saturate cs) \<noteq> Some UNKNOWN"
    by (cases "saturate cs") (auto simp: entailment_def)
  from a b c d e show ?thesis by blast
qed

text \<open>Witness for C3: the first-order example with a bound of three rounds, and the
  clauses of the propositional example for \<open>P21\<close> with a bound of two.\<close>

theorem refutation_loops_unbounded_witness:
  "spec_infer 3 1 [[neg_sign # ''King(x)'', neg_sign # ''Greedy(x)'', ''Evil(x)''], [''King(John)''],
      [''Greedy(John)'']] ''Evil(John)'' = Inr TRUE
   \<and> TRUE \<noteq> UNKNOWN
   \<and> map_option (map_sum id entailment) (inference_by_resolution 1
       [[neg_sign # ''King(x)'', neg_sign # ''Greedy(x)'', ''Evil(x)''], [''King(John)''],
        [''Greedy(John)'']] ''Evil(John)'') = Some (Inr TRUE)
   \<and> spec_bounded_saturate 2 [[''A''], [''~A'', ''B''], [''~P21'']] = FALSE
   \<and> map_option entailment (saturate [[''A''], [''~A'', ''B''], [''~P21'']]) = Some FALSE"
proof -
  have a: "spec_infer 3 1 [[neg_sign # ''King(x)'', neg_sign # ''Greedy(x)'', ''Evil(x)''],
      [''King(John)''], [''Greedy(John)'']] ''Evil(John)'' = Inr TRUE"
    by (simp add: numeral_3_eq_3 loop_defs char_class_defs parse_defs unify_defs resolve_defs)
  have b: "spec_bounded_saturate 2 [[''A''], [''~A'', ''B''], [''~P21'']] = FALSE"
    by (simp add: numeral_2_eq_2 player_defs)
  show ?thesis
    using a b
      refutation_loops_unbounded [where m = 3 and limit = 1
        and kb = "[[neg_sign # ''King(x)'', neg_sign # ''Greedy(x)'', ''Evil(x)''],
                   [''King(John)''], [''Greedy(John)'']]"
        and query = "''Evil(John)''" and v = TRUE]
      refutation_loops_unbounded [where m = 2 and cs = "[[''A''], [''~A'', ''B''], [''~P21'']]"
        and v' = FALSE]
    by simp
qed

text \<open>
  Counterexample for C3 as stated: with a maximum of two rounds the engine of the claim
  answers \<open>UNKNOWN\<close> on the first-order example; the source runs a third round and
  returns \<open>True\<close> there.
\<close>

theorem refutation_runs_past_any_bound:
  "spec_infer (Suc (Suc 0)) (Suc 0)
     [[neg_sign # ''King(x)'', neg_sign # ''Greedy(x)'', ''Evil(x)''], [''King(John)''],
      [''Greedy(John)'']] ''Evil(John)'' = Inr UNKNOWN
   \<and> inference_rounds (Suc 0)
     [[neg_sign # ''King(x)'', neg_sign # ''Greedy(x)'', ''Evil(x)''], [''King(John)''],
      [''Greedy(John)'']] ''Evil(John)'' = Some (Inr (True, 3))"
  by (simp add: loop_defs refutation_loop.simps char_class_defs parse_defs unify_defs resolve_defs)

section \<open>Properties of the converter\<close>

lemma binary_cases:
  assumes "binary f"
  obtains (Atom) s where "f = Atom s"
    | (Not) x where "f = Node NOT [x]" "binary x"
    | (Bin) operator x y where "f = Node operator [x, y]" "operator \<noteq> NOT" "binary x" "binary y"
  using assms by (cases f rule: binary.cases) auto

lemma ask_truth_value: "binary f \<Longrightarrow> ask facts f = Inr (truth_value facts f)"
  by (induction f rule: binary.induct) auto

lemma two_le_power: "2 \<le> a \<Longrightarrow> 2 \<le> (2::nat) ^ a"
  using power_increasing [of 1 a "2::nat"] by simp

lemma two_le_mult: "2 \<le> a \<Longrightarrow> 2 \<le> b \<Longrightarrow> 2 \<le> a * (b::nat)"
  using mult_le_mono [of 2 a 1 b] by simp

lemma binary_measure: "binary f \<Longrightarrow> 2 \<le> cnf_measure f"
  by (induction f rule: binary.induct) (auto simp: two_le_power two_le_mult)

lemma and_then_Inr: "and_then r k = Inr y \<longleftrightarrow> (\<exists>x. r = Inr x \<and> k x = Inr y)"
  by (cases r) (auto simp: and_then_def)

lemma and_then_simps [simp]: "and_then (Inr x) k = k x" "and_then (Inl e) k = Inl e"
  by (auto simp: and_then_def)

lemma convert_or:
  "convert_to_cnf (Suc d) (Node OR [a, b]) =
     and_then (convert_to_cnf d a) (\<lambda>l. and_then (convert_to_cnf d b) (or_branch d l))"
  unfolding or_branch_def by simp

lemma convert_and:
  "convert_to_cnf (Suc d) (Node AND [a, b]) =
     and_then (convert_to_cnf d a) (\<lambda>a'. and_then (convert_to_cnf d b) (\<lambda>b'.
       Inr (Node AND [a', b'])))"
  by (cases "convert_to_cnf d a"; cases "convert_to_cnf d b") simp_all

lemma or_branch_cases:
  assumes "binary l" "binary r"
  obtains (Left) p q where "l = Node AND [p, q]" "binary p" "binary q"
      "\<And>d. or_branch d l r = convert_to_cnf d (Node AND [Node OR [p, r], Node OR [q, r]])"
    | (Right) p q where "\<not> is_and l" "r = Node AND [p, q]" "binary p" "binary q"
      "\<And>d. or_branch d l r = convert_to_cnf d (Node AND [Node OR [l, p], Node OR [l, q]])"
    | (Neither) "\<not> is_and l" "\<not> is_and r" "\<And>d. or_branch d l r = Inr (Node OR [l, r])"
proof -
  have l: "(\<exists>p q. l = Node AND [p, q] \<and> binary p \<and> binary q) \<or> \<not> is_and l"
    using assms(1) by (cases l rule: binary.cases) (auto simp: is_and_def)
  have r: "(\<exists>p q. r = Node AND [p, q] \<and> binary p \<and> binary q) \<or> \<not> is_and r"
    using assms(2) by (cases r rule: binary.cases) (auto simp: is_and_def)
  show ?thesis
  proof (cases "is_and l")
    case True
    with l obtain p q where "l = Node AND [p, q]" "binary p" "binary q" by blast
    then show ?thesis using Left by (simp add: or_branch_def)
  next
    case False
    then have el: "or_branch d l r = (case r of
              Node AND rs \<Rightarrow>
                (case rs of
                   p # q # _ \<Rightarrow> convert_to_cnf d (Node AND [Node OR [l, p], Node OR [l, q]])
                 | _ \<Rightarrow> Inl IndexError)
            | _ \<Rightarrow> Inr (Node OR [l, r]))" for d
      unfolding or_branch_def by (cases l) (auto simp: is_and_def split: operator.splits)
    show ?thesis
    proof (cases "is_and r")
      case True
      with r obtain p q where "r = Node AND [p, q]" "binary p" "binary q" by blast
      then show ?thesis using Right False el by simp
    next
      case nr: False
      then have "or_branch d l r = Inr (Node OR [l, r])" for d
        unfolding el by (cases r) (auto simp: is_and_def split: operator.splits)
      then show ?thesis using Neither False nr by simp
    qed
  qed
qed

lemma convert_step:
  assumes "convert_to_cnf n f = Inr g" "binary f"
  shows "binary g \<and> truth_value facts g = truth_value facts f \<and> convert_to_cnf (Suc n) f = Inr g"
  using assms
proof (induction n arbitrary: f g)
  case 0
  then show ?case by simp
next
  case (Suc n)
  note IH = Suc.IH
  note run = Suc.prems(1)
  from Suc.prems(2) show ?case
  proof (cases f rule: binary_cases)
    case (Atom s)
    with run show ?thesis by auto
  next
    case (Not x)
    from \<open>binary x\<close> show ?thesis
    proof (cases x rule: binary_cases)
      case (Atom s)
      with Not run show ?thesis by auto
    next
      case inner: (Not y)
      with Not run have "convert_to_cnf n y = Inr g" by simp
      from IH [OF this \<open>binary y\<close>] Not inner show ?thesis by simp
    next
      case (Bin operator y z)
      show ?thesis
      proof (cases operator)
        case NOT
        with Bin show ?thesis by simp
      next
        case AND
        with Not Bin run have "convert_to_cnf n (Node OR [Node NOT [y], Node NOT [z]]) = Inr g"
          by simp
        from IH [OF this] Not Bin AND show ?thesis by simp
      next
        case OR
        with Not Bin run have "convert_to_cnf n (Node AND [Node NOT [y], Node NOT [z]]) = Inr g"
          by simp
        from IH [OF this] Not Bin OR show ?thesis by simp
      next
        case IMPLIES
        with Not Bin run obtain c where c: "convert_to_cnf n x = Inr c" "g = Node NOT [c]"
          by (auto simp: and_then_Inr)
        from IH [OF c(1) \<open>binary x\<close>] c(2) Not Bin IMPLIES show ?thesis by simp
      next
        case IFF
        with Not Bin run obtain c where c: "convert_to_cnf n x = Inr c" "g = Node NOT [c]"
          by (auto simp: and_then_Inr)
        from IH [OF c(1) \<open>binary x\<close>] c(2) Not Bin IFF show ?thesis by simp
      qed
    qed
  next
    case (Bin operator x y)
    show ?thesis
    proof (cases operator)
      case NOT
      with Bin show ?thesis by simp
    next
      case AND
      from run have "convert_to_cnf (Suc n) (Node AND [x, y]) = Inr g"
        unfolding Bin(1) AND .
      then obtain a b where ab: "convert_to_cnf n x = Inr a" "convert_to_cnf n y = Inr b"
        "g = Node AND [a, b]"
        unfolding convert_and by (auto simp: and_then_Inr)
      from IH [OF ab(1) \<open>binary x\<close>] IH [OF ab(2) \<open>binary y\<close>] ab(3) show ?thesis
        unfolding Bin(1) AND convert_and by simp
    next
      case IMPLIES
      with Bin run obtain a b where ab: "convert_to_cnf n x = Inr a" "convert_to_cnf n y = Inr b"
        "convert_to_cnf n (Node OR [Node NOT [a], b]) = Inr g"
        by (auto simp: and_then_Inr)
      note a = IH [OF ab(1) \<open>binary x\<close>] and b = IH [OF ab(2) \<open>binary y\<close>]
      from a b have "binary (Node OR [Node NOT [a], b])" by simp
      from IH [OF ab(3) this] a b Bin IMPLIES show ?thesis by simp
    next
      case IFF
      with Bin run obtain a b where ab: "convert_to_cnf n x = Inr a" "convert_to_cnf n y = Inr b"
        "convert_to_cnf n (Node AND [Node IMPLIES [a, b], Node IMPLIES [b, a]]) = Inr g"
        by (auto simp: and_then_Inr)
      note a = IH [OF ab(1) \<open>binary x\<close>] and b = IH [OF ab(2) \<open>binary y\<close>]
      from a b have "binary (Node AND [Node IMPLIES [a, b], Node IMPLIES [b, a]])" by simp
      from IH [OF ab(3) this] a b Bin IFF show ?thesis by auto
    next
      case OR
      from run have "convert_to_cnf (Suc n) (Node OR [x, y]) = Inr g"
        unfolding Bin(1) OR .
      then obtain l r where lr: "convert_to_cnf n x = Inr l" "convert_to_cnf n y = Inr r"
        "or_branch n l r = Inr g"
        unfolding convert_or by (auto simp: and_then_Inr)
      note l = IH [OF lr(1) \<open>binary x\<close>] and r = IH [OF lr(2) \<open>binary y\<close>]
      from l r have bl: "binary l" and br: "binary r" by simp_all
      have "binary g \<and> truth_value facts g = truth_value facts (Node OR [l, r])
            \<and> or_branch (Suc n) l r = Inr g"
        using bl br
      proof (cases rule: or_branch_cases)
        case (Left p q)
        from Left(1,2,3) br have "binary (Node AND [Node OR [p, r], Node OR [q, r]])" by simp
        from IH [OF _ this] Left lr(3) show ?thesis by auto
      next
        case (Right p q)
        from Right(2,3,4) bl have "binary (Node AND [Node OR [l, p], Node OR [l, q]])" by simp
        from IH [OF _ this] Right lr(3) show ?thesis by auto
      next
        case Neither
        with lr(3) bl br show ?thesis by auto
      qed
      with l r show ?thesis
        unfolding Bin(1) OR convert_or by simp
    qed
  qed
qed

lemma convert_mono:
  assumes "convert_to_cnf n f = Inr g" "binary f" "n \<le> m"
  shows "convert_to_cnf m f = Inr g"
  using assms(3,1)
  by (induction rule: dec_induct) (auto dest: convert_step [OF _ assms(2)])


lemma convert_at_max:
  assumes "convert_to_cnf n f = Inr g" "binary f"
  shows "convert_to_cnf (max n k) f = Inr g" "convert_to_cnf (max k n) f = Inr g"
  using convert_mono [OF assms] by simp_all

lemma less_two_power: "(n::nat) < 2 ^ n"
  by (rule less_exp)

lemma less_mult_right:
  assumes "a < b" "1 \<le> (c::nat)"
  shows "a < b * c"
proof -
  have "b * 1 \<le> b * c" using assms(2) by (rule mult_le_mono2)
  then have "b \<le> b * c" by (simp only: mult_1_right)
  with assms(1) show ?thesis by linarith
qed

lemma le_mult_left:
  assumes "1 \<le> (b::nat)"
  shows "c \<le> b * c"
proof -
  have "1 * c \<le> b * c" using assms by (rule mult_le_mono1)
  then show ?thesis by (simp only: mult_1)
qed

lemma factor_less_product:
  assumes "2 \<le> a" "2 \<le> (b::nat)"
  shows "a < a * b \<and> b < a * b"
proof -
  have "a * 2 \<le> a * b" "2 * b \<le> a * b"
    using assms by (auto intro: mult_le_mono)
  with assms show ?thesis by linarith
qed

lemma sum_less_product:
  assumes "4 \<le> a" "4 \<le> (b::nat)"
  shows "a + b + 1 < a * b"
proof -
  have "4 * b \<le> a * b" "a * 4 \<le> a * b"
    using assms by (auto intro: mult_le_mono)
  with assms show ?thesis by linarith
qed

lemma not_or_measure:
  assumes "2 \<le> y" "2 \<le> (z::nat)"
  shows "(2::nat) ^ y + 2 ^ z + 1 < 2 ^ (y * z)"
proof -
  have "2 * z \<le> y * z" "y * 2 \<le> y * z"
    using assms by (auto intro: mult_le_mono)
  then have "y + z \<le> y * z" by linarith
  then have "(2::nat) ^ (y + z) \<le> 2 ^ (y * z)"
    by (intro power_increasing) auto
  moreover have "(4::nat) \<le> 2 ^ y" "(4::nat) \<le> 2 ^ z"
    using power_increasing [of 2 y "2::nat"] power_increasing [of 2 z "2::nat"] assms
    by simp_all
  then have "(2::nat) ^ y + 2 ^ z + 1 < 2 ^ y * 2 ^ z"
    by (rule sum_less_product)
  ultimately show ?thesis by (simp add: power_add)
qed

lemma implies_measure:
  assumes "a \<le> x" "b \<le> (y::nat)"
  shows "(2::nat) ^ a * b \<le> 2 ^ x * y"
  using assms by (intro mult_le_mono power_increasing) auto

lemma left_distribution_measure:
  assumes "p + q + 1 \<le> x" "r \<le> y" "2 \<le> (r::nat)"
  shows "p * r + q * r + 1 < x * y"
proof -
  have "p * r + q * r + 1 < (p + q + 1) * r"
    using assms(3) by (simp add: algebra_simps)
  also have "\<dots> \<le> x * y"
    using assms(1,2) by (intro mult_le_mono)
  finally show ?thesis .
qed

lemma right_distribution_measure:
  assumes "l \<le> x" "p + q + 1 \<le> y" "2 \<le> (l::nat)"
  shows "l * p + l * q + 1 < x * y"
proof -
  have "l * p + l * q + 1 < l * (p + q + 1)"
    using assms(3) by (simp add: algebra_simps)
  also have "\<dots> \<le> x * y"
    using assms(1,2) by (intro mult_le_mono)
  finally show ?thesis .
qed

lemma convert_total:
  "binary f \<Longrightarrow> \<exists>n g. convert_to_cnf n f = Inr g \<and> cnf_measure g \<le> cnf_measure f"
proof (induction "cnf_measure f" arbitrary: f rule: less_induct)
  case less
  note IH = less.hyps
  from less.prems show ?case
  proof (cases f rule: binary_cases)
    case (Atom s)
    then have "convert_to_cnf (Suc 0) f = Inr f" by simp
    then show ?thesis by blast
  next
    case (Not x)
    from \<open>binary x\<close> show ?thesis
    proof (cases x rule: binary_cases)
      case (Atom s)
      with Not have "convert_to_cnf (Suc 0) f = Inr f" by simp
      then show ?thesis by blast
    next
      case inner: (Not y)
      have "cnf_measure y < 2 ^ cnf_measure y"
        by (rule less_two_power)
      also have "(2::nat) ^ cnf_measure y < 2 ^ 2 ^ cnf_measure y"
        by (rule less_two_power)
      finally have "cnf_measure y < cnf_measure f"
        unfolding Not inner by simp
      from IH [OF this \<open>binary y\<close>] obtain n g
        where g: "convert_to_cnf n y = Inr g" "cnf_measure g \<le> cnf_measure y" by blast
      then have "convert_to_cnf (Suc n) f = Inr g" unfolding Not inner by simp
      with g(2) \<open>cnf_measure y < cnf_measure f\<close> show ?thesis
        by (intro exI [of _ "Suc n"] exI [of _ g]) simp
    next
      case (Bin operator y z)
      note my = binary_measure [OF \<open>binary y\<close>] and mz = binary_measure [OF \<open>binary z\<close>]
      show ?thesis
      proof (cases operator)
        case NOT
        with Bin show ?thesis by simp
      next
        case AND
        let ?f' = "Node OR [Node NOT [y], Node NOT [z]]"
        have lt: "cnf_measure ?f' < cnf_measure f"
          unfolding Not Bin AND by (simp add: power_add)
        have "binary ?f'" using Bin by simp
        from IH [OF lt this] obtain n g
          where g: "convert_to_cnf n ?f' = Inr g" "cnf_measure g \<le> cnf_measure ?f'" by blast
        then have "convert_to_cnf (Suc n) f = Inr g" unfolding Not Bin AND by simp
        with g(2) lt show ?thesis
          by (intro exI [of _ "Suc n"] exI [of _ g]) simp
      next
        case OR
        let ?f' = "Node AND [Node NOT [y], Node NOT [z]]"
        have lt: "cnf_measure ?f' < cnf_measure f"
          unfolding Not Bin OR using not_or_measure [OF my mz] by simp
        have "binary ?f'" using Bin by simp
        from IH [OF lt this] obtain n g
          where g: "convert_to_cnf n ?f' = Inr g" "cnf_measure g \<le> cnf_measure ?f'" by blast
        then have "convert_to_cnf (Suc n) f = Inr g" unfolding Not Bin OR by simp
        with g(2) lt show ?thesis
          by (intro exI [of _ "Suc n"] exI [of _ g]) simp
      next
        case IMPLIES
        have lt: "cnf_measure x < cnf_measure f"
          unfolding Not using less_two_power [of "cnf_measure x"] by simp
        from IH [OF lt \<open>binary x\<close>] obtain n c
          where c: "convert_to_cnf n x = Inr c" "cnf_measure c \<le> cnf_measure x" by blast
        then have "convert_to_cnf (Suc n) f = Inr (Node NOT [c])"
          unfolding Not Bin IMPLIES by simp
        moreover have "cnf_measure (Node NOT [c]) \<le> cnf_measure f"
          unfolding Not using c(2) by simp
        ultimately show ?thesis by blast
      next
        case IFF
        have lt: "cnf_measure x < cnf_measure f"
          unfolding Not using less_two_power [of "cnf_measure x"] by simp
        from IH [OF lt \<open>binary x\<close>] obtain n c
          where c: "convert_to_cnf n x = Inr c" "cnf_measure c \<le> cnf_measure x" by blast
        then have "convert_to_cnf (Suc n) f = Inr (Node NOT [c])"
          unfolding Not Bin IFF by simp
        moreover have "cnf_measure (Node NOT [c]) \<le> cnf_measure f"
          unfolding Not using c(2) by simp
        ultimately show ?thesis by blast
      qed
    qed
  next
    case (Bin operator x y)
    note mx = binary_measure [OF \<open>binary x\<close>] and my = binary_measure [OF \<open>binary y\<close>]
    have "operator \<noteq> NOT \<Longrightarrow> cnf_measure x < cnf_measure f \<and> cnf_measure y < cnf_measure f"
    proof (cases operator)
      case AND
      show ?thesis unfolding Bin(1) AND cnf_measure.simps by linarith
    next
      case OR
      from factor_less_product [OF mx my] show ?thesis
        unfolding Bin(1) OR cnf_measure.simps by linarith
    next
      case IMPLIES
      have "cnf_measure x < 2 ^ cnf_measure x * cnf_measure y"
        using less_two_power [of "cnf_measure x"] my by (intro less_mult_right) auto
      moreover have "cnf_measure y \<le> 2 ^ cnf_measure x * cnf_measure y"
        by (rule le_mult_left) simp
      ultimately show ?thesis unfolding Bin(1) IMPLIES cnf_measure.simps by linarith
    next
      case IFF
      have "cnf_measure y \<le> 2 ^ cnf_measure x * cnf_measure y"
        "cnf_measure x \<le> 2 ^ cnf_measure y * cnf_measure x"
        by (rule le_mult_left, simp)+
      then show ?thesis unfolding Bin(1) IFF cnf_measure.simps by linarith
    qed simp
    with Bin(2) have ltx: "cnf_measure x < cnf_measure f" and lty: "cnf_measure y < cnf_measure f"
      by simp_all
    from IH [OF ltx \<open>binary x\<close>] obtain n1 a
      where a: "convert_to_cnf n1 x = Inr a" "cnf_measure a \<le> cnf_measure x" by blast
    from IH [OF lty \<open>binary y\<close>] obtain n2 b
      where b: "convert_to_cnf n2 y = Inr b" "cnf_measure b \<le> cnf_measure y" by blast
    have ba: "binary a" using convert_step [OF a(1) \<open>binary x\<close>] by simp
    have bb: "binary b" using convert_step [OF b(1) \<open>binary y\<close>] by simp
    note ma = binary_measure [OF ba] and mb = binary_measure [OF bb]
    text \<open>The result when the remaining work is one more call on a smaller formula.\<close>
    have nested: "\<exists>n g. convert_to_cnf n f = Inr g \<and> cnf_measure g \<le> cnf_measure f"
      if f': "binary f'" "cnf_measure f' < cnf_measure f"
        and step: "\<And>k g. convert_to_cnf k x = Inr a \<Longrightarrow> convert_to_cnf k y = Inr b \<Longrightarrow>
                     convert_to_cnf k f' = Inr g \<Longrightarrow> convert_to_cnf (Suc k) f = Inr g"
      for f'
    proof -
      from IH [OF f'(2,1)] obtain n3 g
        where g: "convert_to_cnf n3 f' = Inr g" "cnf_measure g \<le> cnf_measure f'" by blast
      let ?k = "max n1 (max n2 n3)"
      have "convert_to_cnf ?k x = Inr a"
        using convert_mono [OF a(1) \<open>binary x\<close>, of ?k] by simp
      moreover have "convert_to_cnf ?k y = Inr b"
        using convert_mono [OF b(1) \<open>binary y\<close>, of ?k] by simp
      moreover have "convert_to_cnf ?k f' = Inr g"
        using convert_mono [OF g(1) f'(1), of ?k] by simp
      ultimately have "convert_to_cnf (Suc ?k) f = Inr g" by (rule step)
      with g(2) f'(2) show ?thesis
        by (intro exI [of _ "Suc ?k"] exI [of _ g]) simp
    qed
    show ?thesis
    proof (cases operator)
      case NOT
      with Bin show ?thesis by simp
    next
      case AND
      let ?k = "max n1 n2"
      have "convert_to_cnf ?k x = Inr a" "convert_to_cnf ?k y = Inr b"
        using convert_at_max [OF a(1) \<open>binary x\<close>] convert_at_max [OF b(1) \<open>binary y\<close>]
        by simp_all
      then have "convert_to_cnf (Suc ?k) f = Inr (Node AND [a, b])"
        unfolding Bin(1) AND convert_and by simp
      moreover have "cnf_measure (Node AND [a, b]) \<le> cnf_measure f"
        unfolding Bin(1) AND using a(2) b(2) by simp
      ultimately show ?thesis by blast
    next
      case IMPLIES
      show ?thesis
      proof (rule nested [of "Node OR [Node NOT [a], b]"])
        show "binary (Node OR [Node NOT [a], b])" using ba bb by simp
        show "cnf_measure (Node OR [Node NOT [a], b]) < cnf_measure f"
          unfolding Bin(1) IMPLIES using implies_measure [OF a(2) b(2)] by simp
      qed (simp add: Bin(1) IMPLIES)
    next
      case IFF
      show ?thesis
      proof (rule nested [of "Node AND [Node IMPLIES [a, b], Node IMPLIES [b, a]]"])
        show "binary (Node AND [Node IMPLIES [a, b], Node IMPLIES [b, a]])" using ba bb by simp
        show "cnf_measure (Node AND [Node IMPLIES [a, b], Node IMPLIES [b, a]]) < cnf_measure f"
          unfolding Bin(1) IFF
          using implies_measure [OF a(2) b(2)] implies_measure [OF b(2) a(2)] by simp
      qed (simp add: Bin(1) IFF)
    next
      case OR
      from ba bb show ?thesis
      proof (cases rule: or_branch_cases)
        case (Left p q)
        show ?thesis
        proof (rule nested [of "Node AND [Node OR [p, b], Node OR [q, b]]"])
          show "binary (Node AND [Node OR [p, b], Node OR [q, b]])" using Left bb by simp
          show "cnf_measure (Node AND [Node OR [p, b], Node OR [q, b]]) < cnf_measure f"
            unfolding Bin(1) OR
            using left_distribution_measure [of "cnf_measure p" "cnf_measure q" "cnf_measure x"
                "cnf_measure b" "cnf_measure y"] a(2) b(2) mb Left(1)
            by simp
        qed (simp add: Bin(1) OR convert_or Left(4) del: convert_to_cnf.simps)
      next
        case (Right p q)
        show ?thesis
        proof (rule nested [of "Node AND [Node OR [a, p], Node OR [a, q]]"])
          show "binary (Node AND [Node OR [a, p], Node OR [a, q]])" using Right ba by simp
          show "cnf_measure (Node AND [Node OR [a, p], Node OR [a, q]]) < cnf_measure f"
            unfolding Bin(1) OR
            using right_distribution_measure [of "cnf_measure a" "cnf_measure x" "cnf_measure p"
                "cnf_measure q" "cnf_measure y"] a(2) b(2) ma Right(2)
            by simp
        qed (simp add: Bin(1) OR convert_or Right(5) del: convert_to_cnf.simps)
      next
        case Neither
        let ?k = "max n1 n2"
        have "convert_to_cnf ?k x = Inr a" "convert_to_cnf ?k y = Inr b"
          using convert_at_max [OF a(1) \<open>binary x\<close>] convert_at_max [OF b(1) \<open>binary y\<close>]
          by simp_all
        then have "convert_to_cnf (Suc ?k) f = Inr (Node OR [a, b])"
          unfolding Bin(1) OR convert_or by (simp add: Neither(3))
        moreover have "cnf_measure (Node OR [a, b]) \<le> cnf_measure f"
          unfolding Bin(1) OR using a(2) b(2) by (simp add: mult_le_mono)
        ultimately show ?thesis by blast
      qed
    qed
  qed
qed


text \<open>
  On the binary grammar the converter does what it is meant to do: it returns once the
  recursion limit is large enough, always with the same formula, and under every set
  of facts \<open>ask\<close> gives the same truth value for that formula as for the original;
  this holds for whatever the converter returns at any depth.
\<close>

theorem convert_to_cnf_preserves_truth:
  assumes "binary f"
  shows "(\<exists>n g. (\<forall>m\<ge>n. convert_to_cnf m f = Inr g)
                \<and> (\<forall>facts. ask facts g = ask facts f \<and> (\<exists>b. ask facts f = Inr b)))
         \<and> (convert_to_cnf k f = Inr h \<longrightarrow> ask facts h = ask facts f)"
proof
  from convert_total [OF assms] obtain n g where g: "convert_to_cnf n f = Inr g" by blast
  have "\<forall>m\<ge>n. convert_to_cnf m f = Inr g"
    using convert_mono [OF g assms] by blast
  moreover have "ask facts g = ask facts f \<and> (\<exists>b. ask facts f = Inr b)" for facts
    using convert_step [OF g assms, of facts] assms by (simp add: ask_truth_value)
  ultimately show "\<exists>n g. (\<forall>m\<ge>n. convert_to_cnf m f = Inr g)
      \<and> (\<forall>facts. ask facts g = ask facts f \<and> (\<exists>b. ask facts f = Inr b))"
    by blast
  show "convert_to_cnf k f = Inr h \<longrightarrow> ask facts h = ask facts f"
  proof
    assume h: "convert_to_cnf k f = Inr h"
    from convert_step [OF h assms, of facts] assms show "ask facts h = ask facts f"
      by (simp add: ask_truth_value)
  qed
qed

text \<open>An instance: \<open>IFF(A, B)\<close> and its conversion under the four assignments.\<close>

theorem convert_to_cnf_preserves_truth_witness:
  "binary (Node IFF [Atom ''A'', Atom ''B''])
   \<and> convert_to_cnf (Suc (Suc (Suc (Suc (Suc 0))))) (Node IFF [Atom ''A'', Atom ''B''])
       = Inr (Node AND [Node OR [Node NOT [Atom ''A''], Atom ''B''],
                        Node OR [Node NOT [Atom ''B''], Atom ''A'']])
   \<and> ask {} (Node AND [Node OR [Node NOT [Atom ''A''], Atom ''B''],
                        Node OR [Node NOT [Atom ''B''], Atom ''A'']])
       = ask {} (Node IFF [Atom ''A'', Atom ''B''])
   \<and> ask {''A''} (Node AND [Node OR [Node NOT [Atom ''A''], Atom ''B''],
                        Node OR [Node NOT [Atom ''B''], Atom ''A'']])
       = ask {''A''} (Node IFF [Atom ''A'', Atom ''B''])
   \<and> ask {''B''} (Node AND [Node OR [Node NOT [Atom ''A''], Atom ''B''],
                        Node OR [Node NOT [Atom ''B''], Atom ''A'']])
       = ask {''B''} (Node IFF [Atom ''A'', Atom ''B''])
   \<and> ask {''A'', ''B''} (Node AND [Node OR [Node NOT [Atom ''A''], Atom ''B''],
                        Node OR [Node NOT [Atom ''B''], Atom ''A'']])
       = ask {''A'', ''B''} (Node IFF [Atom ''A'', Atom ''B''])"
proof -
  let ?f = "Node IFF [Atom ''A'', Atom ''B'']"
  let ?g = "Node AND [Node OR [Node NOT [Atom ''A''], Atom ''B''],
                      Node OR [Node NOT [Atom ''B''], Atom ''A'']]"
  have b: "binary ?f" by simp
  have c: "convert_to_cnf (Suc (Suc (Suc (Suc (Suc 0))))) ?f = Inr ?g" by simp
  note t = convert_to_cnf_preserves_truth [OF b, where k = "Suc (Suc (Suc (Suc (Suc 0))))"
      and h = ?g, THEN conjunct2, rule_format, OF c]
  from b c t [of "{}"] t [of "{''A''}"] t [of "{''B''}"] t [of "{''A'', ''B''}"]
  show ?thesis by blast
qed

subsection \<open>Conjunctions of more than two operands\<close>

text \<open>
  Claim C4. The claim says that the conversion keeps the truth value of every formula.
  A conjunction may have any number of operands: \<open>ask\<close> evaluates them all, the
  \<open>AND\<close> branch of the converter converts them all, and clause extraction walks them
  all. The branch for the negation of a conjunction reads two operands only, and so
  does the distribution of a disjunction over a conjunction. With \<open>A\<close> and \<open>B\<close> true
  and \<open>C\<close>, \<open>D\<close> false, \<open>NOT(AND(A, B, C))\<close> is true and its conversion
  \<open>OR(NOT(A), NOT(B))\<close> is false, while \<open>OR(AND(A, B, C), D)\<close> is false and its
  conversion \<open>AND(OR(A, D), OR(B, D))\<close> is true. The conjunction \<open>AND(A, B, C)\<close>
  itself is converted unchanged.
\<close>

theorem convert_to_cnf_drops_operands:
  "convert_to_cnf (Suc (Suc (Suc n))) (Node NOT [Node AND [Atom ''A'', Atom ''B'', Atom ''C'']])
     = Inr (Node OR [Node NOT [Atom ''A''], Node NOT [Atom ''B'']])
   \<and> ask {''A'', ''B''} (Node NOT [Node AND [Atom ''A'', Atom ''B'', Atom ''C'']]) = Inr True
   \<and> ask {''A'', ''B''} (Node OR [Node NOT [Atom ''A''], Node NOT [Atom ''B'']]) = Inr False
   \<and> convert_to_cnf (Suc (Suc (Suc (Suc n))))
         (Node OR [Node AND [Atom ''A'', Atom ''B'', Atom ''C''], Atom ''D''])
     = Inr (Node AND [Node OR [Atom ''A'', Atom ''D''], Node OR [Atom ''B'', Atom ''D'']])
   \<and> ask {''A'', ''B''} (Node OR [Node AND [Atom ''A'', Atom ''B'', Atom ''C''], Atom ''D''])
     = Inr False
   \<and> ask {''A'', ''B''} (Node AND [Node OR [Atom ''A'', Atom ''D''], Node OR [Atom ''B'', Atom ''D'']])
     = Inr True
   \<and> convert_to_cnf (Suc (Suc n)) (Node AND [Atom ''A'', Atom ''B'', Atom ''C''])
     = Inr (Node AND [Atom ''A'', Atom ''B'', Atom ''C''])
   \<and> ask {''A'', ''B''} (Node AND [Atom ''A'', Atom ''B'', Atom ''C'']) = Inr False"
  by simp

end
